theory Spec2Isabelle
  imports Main "HOL-Library.Word"
begin

section \<open>Common types\<close>

text \<open>
  A C++ pointer is an option: \<open>None\<close> is \<open>NULL\<close>. \<open>uint\<close> is a 32-bit word whose
  arithmetic wraps; \<open>size_t\<close>, \<open>uint64_t\<close> and \<open>void*\<close> are 64-bit words.
  A data member \<open>name_\<close> of the source is the field \<open>name\<close> here, with a prefix for
  its class where the plain name is taken (\<open>sb_\<close>, \<open>chunk_\<close>, \<open>srd_\<close>, \<open>xb_\<close>).
  Classes and macros that the sources use without declaring them are type parameters or
  function parameters of the definitions that need them.
\<close>

type_synonym 'a ptr = "'a option"
type_synonym uint = "32 word"
type_synonym size_t = "64 word"

section \<open>NullDevice (gpudevice.hpp, lines 36-137)\<close>

text \<open>
  The two data members the class declares. Every method below takes the object it is
  called on; a method that can write through a reference or pointer parameter returns
  what that parameter holds after the call.
\<close>

record NullDevice =
  calTarget :: int
  hwInfo :: "nat ptr"

text \<open>\<open>createVirtualDevice(profiling, interopQueue, deviceQueueSize) { return NULL; }\<close>.
  The method is not const, so the object after the call is part of the result.\<close>

definition NullDevice_createVirtualDevice ::
  "NullDevice \<Rightarrow> bool \<Rightarrow> bool \<Rightarrow> uint \<Rightarrow> 'vdev ptr \<times> NullDevice" where
  "NullDevice_createVirtualDevice this profiling interopQueue deviceQueueSize = (None, this)"

text \<open>\<open>createMemory(amd::Memory& owner) const { return NULL; }\<close>\<close>

definition NullDevice_createMemory :: "NullDevice \<Rightarrow> 'mem \<Rightarrow> 'dmem ptr \<times> 'mem" where
  "NullDevice_createMemory this owner = (None, owner)"

text \<open>\<open>createView(amd::Memory& owner, const device::Memory& parent) const { return NULL; }\<close>\<close>

definition NullDevice_createView :: "NullDevice \<Rightarrow> 'mem \<Rightarrow> 'dmem \<Rightarrow> 'dmem ptr \<times> 'mem" where
  "NullDevice_createView this owner parent = (None, owner)"

text \<open>\<open>reallocMemory(amd::Memory& owner) const { return true; }\<close>\<close>

definition NullDevice_reallocMemory :: "NullDevice \<Rightarrow> 'mem \<Rightarrow> bool \<times> 'mem" where
  "NullDevice_reallocMemory this owner = (True, owner)"

text \<open>\<open>globalFreeMemory(size_t* freeMemory) const { return false; }\<close>: the second
  component is what \<open>*freeMemory\<close> holds after the call.\<close>

definition NullDevice_globalFreeMemory :: "NullDevice \<Rightarrow> 'cell \<Rightarrow> bool \<times> 'cell" where
  "NullDevice_globalFreeMemory this freeMemory = (False, freeMemory)"

text \<open>
  \<open>createSampler(owner, sampler) const { ShouldNotReachHere(); return true; }\<close>.
  The macro \<open>ShouldNotReachHere\<close> is declared outside these sources, so what it does
  after reporting is a parameter: \<open>continues\<close> says whether control comes back from it.
  The result is the list of assertions tripped, and, when the call returns, the returned
  flag with what \<open>*sampler\<close> holds afterwards.
\<close>

datatype assertion = ShouldNotReachHere

definition NullDevice_createSampler ::
  "bool \<Rightarrow> NullDevice \<Rightarrow> 'owner \<Rightarrow> 'samp ptr \<Rightarrow> assertion list \<times> (bool \<times> 'samp ptr) option" where
  "NullDevice_createSampler continues this owner sampler =
     ([ShouldNotReachHere], if continues then Some (True, sampler) else None)"

section \<open>Device::ScratchBuffer (gpudevice.hpp, lines 296-311)\<close>

record 'mem ScratchBuffer =
  sb_regNum :: uint
  sb_memObjs :: "'mem ptr list"
  sb_offset :: uint
  sb_size :: uint

text \<open>
  \<open>ScratchBuffer(uint numMems): regNum_(0), memObjs_(numMems), offset_(0) {}\<close>.
  The object is built in storage \<open>raw\<close> that already holds some bytes; the initialiser
  list writes three of the four members, and \<open>std::vector<Memory*>(numMems)\<close> holds
  \<open>numMems\<close> null pointers.
\<close>

definition ScratchBuffer_ctor :: "'mem ScratchBuffer \<Rightarrow> uint \<Rightarrow> 'mem ScratchBuffer" where
  "ScratchBuffer_ctor raw numMems =
     raw\<lparr>sb_regNum := 0, sb_memObjs := replicate (unat numMems) None, sb_offset := 0\<rparr>"

section \<open>Device::SrdManager (gpudevice.hpp, lines 314-352)\<close>

record 'mem Chunk =
  chunk_buf :: "'mem ptr"
  chunk_flags :: "uint list ptr"

text \<open>\<open>Chunk(): buf_(NULL), flags_(NULL) {}\<close>\<close>

definition Chunk_ctor :: "'mem Chunk" where
  "Chunk_ctor = \<lparr>chunk_buf = None, chunk_flags = None\<rparr>"

definition MaskBits :: nat where
  "MaskBits = 32"

record 'mem SrdManager =
  srd_pool :: "'mem Chunk list"
  srd_numFlags :: uint
  srd_srdSize :: uint
  srd_bufSize :: uint

text \<open>
  \<open>SrdManager(dev, srdSize, bufSize): numFlags_(bufSize / (srdSize * MaskBits)),
  srdSize_(srdSize), bufSize_(bufSize) {}\<close>. The product and the quotient are \<open>uint\<close>
  operations: the product wraps modulo \<open>2^32\<close>, and a zero divisor is undefined behaviour
  in C++, here the result \<open>None\<close>.
\<close>

definition SrdManager_ctor :: "uint \<Rightarrow> uint \<Rightarrow> 'mem SrdManager option" where
  "SrdManager_ctor srdSize bufSize =
     (if srdSize * of_nat MaskBits = 0 then None
      else Some \<lparr>srd_pool = [], srd_numFlags = bufSize div (srdSize * of_nat MaskBits),
                 srd_srdSize = srdSize, srd_bufSize = bufSize\<rparr>)"

text \<open>Slots of one chunk: one per bit of its \<open>numFlags_\<close> flag words; and the bytes
  these slots take.\<close>

definition slotsPerChunk :: "'mem SrdManager \<Rightarrow> nat" where
  "slotsPerChunk m = unat (srd_numFlags m) * MaskBits"

definition slotBytes :: "'mem SrdManager \<Rightarrow> nat" where
  "slotBytes m = unat (srd_srdSize m) * slotsPerChunk m"

text \<open>The bytes of one chunk's buffer.\<close>

definition chunkBufBytes :: "'mem SrdManager \<Rightarrow> nat" where
  "chunkBufBytes m = unat (srd_bufSize m)"

section \<open>Device::VACacheEntry and the VA cache (gpudevice.hpp, lines 278-294, 492-498, 619)\<close>

record 'mem VACacheEntry =
  startAddress :: size_t
  endAddress :: size_t
  memory :: 'mem

text \<open>\<open>VACacheEntry(startAddress, endAddress, memory)\<close> copies its three arguments.\<close>

definition VACacheEntry_ctor :: "size_t \<Rightarrow> size_t \<Rightarrow> 'mem \<Rightarrow> 'mem VACacheEntry" where
  "VACacheEntry_ctor s e m = \<lparr>startAddress = s, endAddress = e, memory = m\<rparr>"

text \<open>An entry holds the addresses from its start up to, not including, its end.\<close>

definition containsVA :: "size_t \<Rightarrow> 'mem VACacheEntry \<Rightarrow> bool" where
  "containsVA p x = (startAddress x \<le> p \<and> p < endAddress x)"

text \<open>
  Modelled from the spec: the body of \<open>Device::addVACache\<close> is not in the sources, which
  declare it and the list \<open>vaCacheList_\<close> of entries. The spec: it "inserts a range keyed
  by its [start,end) device-visible address", into "an ordered collection of
  address-range to Memory mappings". How a \<open>Memory\<close> gives its range is not in the
  sources either and is the parameter \<open>vaRange\<close>.
\<close>

definition addVACache ::
  "('mem \<Rightarrow> size_t \<times> size_t) \<Rightarrow> 'mem \<Rightarrow> 'mem VACacheEntry list \<Rightarrow> 'mem VACacheEntry list" where
  "addVACache vaRange m vaCacheList =
     insort_key startAddress (VACacheEntry_ctor (fst (vaRange m)) (snd (vaRange m)) m) vaCacheList"

text \<open>
  Modelled from the spec: the body of \<open>Device::removeVACache\<close> is not in the sources.
  The spec: "removeVACache(Memory*) deletes it", the range of that memory.
\<close>

definition removeVACache :: "'mem \<Rightarrow> 'mem VACacheEntry list \<Rightarrow> 'mem VACacheEntry list" where
  "removeVACache m vaCacheList = filter (\<lambda>x. memory x \<noteq> m) vaCacheList"

text \<open>
  Modelled from the spec: the body of \<open>Device::findMemoryFromVA\<close> is not in the sources.
  The spec: it "returns the entry whose range contains ptr and the byte offset within it,
  or null if unmapped". \<open>None\<close> is the null result; otherwise the memory comes with the
  value stored through \<open>offset\<close>.
\<close>

definition findMemoryFromVA :: "'mem VACacheEntry list \<Rightarrow> size_t \<Rightarrow> ('mem \<times> size_t) option" where
  "findMemoryFromVA vaCacheList p =
     (case find (containsVA p) vaCacheList of
        None \<Rightarrow> None
      | Some x \<Rightarrow> Some (memory x, p - startAddress x))"

text \<open>An example of \<open>vaRange\<close>: memory \<open>n\<close> is mapped at the \<open>n\<close>-th 4 KiB page.\<close>

definition pageRange :: "nat \<Rightarrow> size_t \<times> size_t" where
  "pageRange n = (of_nat n * 0x1000, of_nat n * 0x1000 + 0x1000)"

section \<open>Scratch allocation (gpudevice.hpp, lines 599-602, 625-626)\<close>

text \<open>
  The part of \<open>Device\<close> that scratch allocation works on: the vector \<open>scratch_\<close> of
  per-queue buffers, indexed by queue slot, and the global scratch buffer
  \<open>globalScratchBuf_\<close>, null or an allocation of some number of bytes.
\<close>

record 'mem ScratchState =
  scratch :: "'mem ScratchBuffer list"
  globalScratchBuf :: "nat ptr"

text \<open>
  Modelled from the spec: the body of \<open>Device::allocScratch\<close> is not in the sources.
  The spec: growing the shared store "requires recomputing every queue's offset"; each
  queue's buffer starts where the one before it ends. \<open>offset_\<close> is a \<open>uint\<close>, so the
  running sum wraps.
\<close>

fun placeScratch :: "uint \<Rightarrow> 'mem ScratchBuffer list \<Rightarrow> 'mem ScratchBuffer list" where
  "placeScratch off [] = []"
| "placeScratch off (b # bs) = b\<lparr>sb_offset := off\<rparr> # placeScratch (off + sb_size b) bs"

text \<open>The bytes of the global store that holds every queue's buffer.\<close>

definition scratchBytes :: "'mem ScratchBuffer list \<Rightarrow> nat" where
  "scratchBytes bs = sum_list (map (\<lambda>b. unat (sb_size b)) bs)"

text \<open>
  Modelled from the spec: the body of \<open>Device::allocScratch\<close> is not in the sources.
  The spec: "allocScratch(regNum, queue) computes the queue's required scratch size; if
  it exceeds the queue's current ScratchBuffer allocation, the global scratch store must
  grow", with every queue's offset recomputed; "scratch never shrinks in response to a
  smaller request"; a native allocation failure is "surfaced as a null/false return".
  The map from register count to bytes is not in the sources and is the parameter
  \<open>calcSize\<close>; \<open>nativeOk\<close> is the outcome of the native allocation of the grown store,
  and a failed growth leaves the state as it was. The queue is given by its slot \<open>q\<close>; a
  slot outside \<open>scratch_\<close> is an out-of-range access, the result \<open>None\<close>.
\<close>

definition allocScratch ::
  "(uint \<Rightarrow> uint) \<Rightarrow> bool \<Rightarrow> uint \<Rightarrow> nat \<Rightarrow> 'mem ScratchState
     \<Rightarrow> (bool \<times> 'mem ScratchState) option" where
  "allocScratch calcSize nativeOk regNum q st =
     (if length (scratch st) \<le> q then None
      else let required = calcSize regNum; cur = scratch st ! q in
        if required \<le> sb_size cur then Some (True, st)
        else if \<not> nativeOk then Some (False, st)
        else let grown = (scratch st)[q := cur\<lparr>sb_regNum := regNum, sb_size := required\<rparr>]
             in Some (True, st\<lparr>scratch := placeScratch 0 grown,
                                globalScratchBuf := Some (scratchBytes grown)\<rparr>))"

text \<open>A call sequence: each call with the outcome of its native allocation, its register
  count and its queue slot. A sequence with an out-of-range access has no final state.\<close>

datatype scratchCall = AllocScratch bool uint nat


fun runScratch ::
  "(uint \<Rightarrow> uint) \<Rightarrow> scratchCall list \<Rightarrow> 'mem ScratchState \<Rightarrow> 'mem ScratchState option" where
  "runScratch calcSize [] st = Some st"
| "runScratch calcSize (AllocScratch nativeOk regNum q # calls) st =
     (case allocScratch calcSize nativeOk regNum q st of
        None \<Rightarrow> None
      | Some (ok, st') \<Rightarrow> runScratch calcSize calls st')"

text \<open>No queue's buffer is smaller in \<open>cs\<close> than in \<open>bs\<close>.\<close>

definition sizesGrow :: "'mem ScratchBuffer list \<Rightarrow> 'mem ScratchBuffer list \<Rightarrow> bool" where
  "sizesGrow bs cs = list_all2 (\<lambda>b c. sb_size b \<le> sb_size c) bs cs"

text \<open>An example: 256 bytes for each register, and a device with two queues.\<close>

definition calcSizeExample :: "uint \<Rightarrow> uint" where
  "calcSizeExample regNum = regNum * 256"

definition scratchExample :: "unit ScratchState" where
  "scratchExample =
     \<lparr>scratch = [\<lparr>sb_regNum = 0, sb_memObjs = [], sb_offset = 0, sb_size = 0\<rparr>,
                 \<lparr>sb_regNum = 0, sb_memObjs = [], sb_offset = 0, sb_size = 0\<rparr>],
      globalScratchBuf = None\<rparr>"

definition scratchExampleAfter :: "unit ScratchState" where
  "scratchExampleAfter =
     \<lparr>scratch = [\<lparr>sb_regNum = 4, sb_memObjs = [], sb_offset = 0, sb_size = 1024\<rparr>,
                 \<lparr>sb_regNum = 2, sb_memObjs = [], sb_offset = 1024, sb_size = 512\<rparr>],
      globalScratchBuf = Some 1536\<rparr>"

section \<open>SRD slots (gpudevice.hpp, lines 323-327, 339-351)\<close>

text \<open>
  Modelled from the spec: the bodies of \<open>SrdManager::allocSrdSlot\<close> and
  \<open>SrdManager::freeSrdSlot\<close> are not in the sources, which declare them, \<open>Chunk\<close>,
  \<open>pool_\<close> and \<open>MaskBits\<close>. The spec: a chunk is a "bitmap of MaskBits(=32)-wide flag
  words marking slot occupancy", and a handle encodes "(chunk index, slot index)"; the
  handle is kept here as that pair. The host address that \<open>allocSrdSlot\<close> also stores
  through \<open>cpuAddr\<close> depends on the backing buffer's mapping and is left out.
\<close>

type_synonym slotHandle = "nat \<times> nat"

text \<open>The flag words of a chunk; a chunk whose \<open>flags_\<close> is null has none.\<close>

definition chunkWords :: "'mem Chunk \<Rightarrow> uint list" where
  "chunkWords ch = (case chunk_flags ch of None \<Rightarrow> [] | Some fl \<Rightarrow> fl)"




text \<open>Setting (\<open>v\<close> true) or clearing the bit of a slot.\<close>

definition writeFlag :: "bool \<Rightarrow> nat \<Rightarrow> uint list \<Rightarrow> uint list" where
  "writeFlag v s fl =
     fl[s div MaskBits := (if v then set_bit (s mod MaskBits) (fl ! (s div MaskBits))
                           else unset_bit (s mod MaskBits) (fl ! (s div MaskBits)))]"

definition writeSlot :: "bool \<Rightarrow> slotHandle \<Rightarrow> 'mem Chunk list \<Rightarrow> 'mem Chunk list" where
  "writeSlot v h pool =
     pool[fst h := (pool ! fst h)\<lparr>chunk_flags :=
                      Some (writeFlag v (snd h) (chunkWords (pool ! fst h)))\<rparr>]"

text \<open>
  Modelled from the spec: "a new chunk (fixed-size bitmap over a fixed-size backing
  Resource)": \<open>numFlags_\<close> flag words with no bit set, over the backing memory \<open>buf\<close>
  that the allocation made.
\<close>

definition newChunk :: "'mem \<Rightarrow> uint \<Rightarrow> 'mem Chunk" where
  "newChunk buf numFlags =
     \<lparr>chunk_buf = Some buf, chunk_flags = Some (replicate (unat numFlags) 0)\<rparr>"


definition takeSlot :: "slotHandle \<Rightarrow> 'mem SrdManager \<Rightarrow> 'mem SrdManager" where
  "takeSlot h m = m\<lparr>srd_pool := writeSlot True h (srd_pool m)\<rparr>"

definition addChunk :: "'mem \<Rightarrow> 'mem SrdManager \<Rightarrow> 'mem SrdManager" where
  "addChunk buf m = m\<lparr>srd_pool := srd_pool m @ [newChunk buf (srd_numFlags m)]\<rparr>"













section \<open>Device::XferBuffers (gpudevice.hpp, lines 228-275)\<close>

text \<open>
  The data members of the class, without the lock and the device reference. The memory
  type and the resources are declared outside these sources and are type parameters.
\<close>

record ('ty, 'res) XferBuffers =
  xb_type :: 'ty
  xb_bufSize :: size_t
  freeBuffers :: "'res list"
  acquiredCnt :: uint

text \<open>\<open>static const size_t MaxXferBufListSize = 8\<close>\<close>

definition MaxXferBufListSize :: nat where
  "MaxXferBufListSize = 8"

text \<open>The constructor: \<open>type_(type), bufSize_(bufSize), acquiredCnt_(0)\<close>, and an empty
  list of free buffers.\<close>

definition XferBuffers_ctor :: "'ty \<Rightarrow> size_t \<Rightarrow> ('ty, 'res) XferBuffers" where
  "XferBuffers_ctor type bufSize =
     \<lparr>xb_type = type, xb_bufSize = bufSize, freeBuffers = [], acquiredCnt = 0\<rparr>"

text \<open>The buffers the pool has created: those acquired and those on the free list.\<close>

definition createdBuffers :: "('ty, 'res) XferBuffers \<Rightarrow> nat" where
  "createdBuffers xb = unat (acquiredCnt xb) + length (freeBuffers xb)"

text \<open>
  Modelled from the spec: the body of \<open>XferBuffers::acquire\<close> is not in the sources.
  The spec: it "blocks (never busy-spins) until a free staging buffer is available if the
  pool is at its 8-buffer ceiling and all are in use; otherwise returns an idle buffer or
  allocates a new one up to the ceiling". A call that has to wait is the outcome
  \<open>Blocked\<close>, with the pool as it was; \<open>fresh\<close> is the buffer a new allocation makes.
\<close>

datatype 'res acquired = Blocked | Acquired 'res

definition acquire ::
  "'res \<Rightarrow> ('ty, 'res) XferBuffers \<Rightarrow> 'res acquired \<times> ('ty, 'res) XferBuffers" where
  "acquire fresh xb =
     (case freeBuffers xb of
        b # rest \<Rightarrow> (Acquired b, xb\<lparr>freeBuffers := rest, acquiredCnt := acquiredCnt xb + 1\<rparr>)
      | [] \<Rightarrow>
          if MaxXferBufListSize \<le> createdBuffers xb then (Blocked, xb)
          else (Acquired fresh, xb\<lparr>acquiredCnt := acquiredCnt xb + 1\<rparr>))"

text \<open>
  Modelled from the spec: the body of \<open>XferBuffers::release\<close> is not in the sources.
  The spec: "release(queue, Resource) returns the buffer to the free list". The counter is
  a \<open>uint\<close> and its decrement wraps.
\<close>

definition release :: "'gpu \<Rightarrow> 'res \<Rightarrow> ('ty, 'res) XferBuffers \<Rightarrow> ('ty, 'res) XferBuffers" where
  "release gpu buffer xb =
     xb\<lparr>freeBuffers := freeBuffers xb @ [buffer], acquiredCnt := acquiredCnt xb - 1\<rparr>"

text \<open>
  A sequence of calls, run together with the list \<open>held\<close> of the buffers acquired and not
  yet released. A call that blocks does not complete and leaves both as they were;
  releasing a buffer that is not held is not a call the interface allows, and such a
  sequence has no final state.
\<close>

datatype ('gpu, 'res) xferCall = Acquire 'res | Release 'gpu 'res

fun xferRun ::
  "('gpu, 'res) xferCall list \<Rightarrow> ('ty, 'res) XferBuffers \<times> 'res list
     \<Rightarrow> (('ty, 'res) XferBuffers \<times> 'res list) option" where
  "xferRun [] s = Some s"
| "xferRun (Acquire fresh # calls) (xb, held) =
     (case acquire fresh xb of
        (Acquired b, xb') \<Rightarrow> xferRun calls (xb', b # held)
      | (Blocked, xb') \<Rightarrow> xferRun calls (xb', held))"
| "xferRun (Release gpu b # calls) (xb, held) =
     (if b \<in> set held then xferRun calls (release gpu b xb, remove1 b held) else None)"

text \<open>The counter agrees with the buffers held, and the pool is within its ceiling.\<close>

definition xferInv :: "('ty, 'res) XferBuffers \<times> 'res list \<Rightarrow> bool" where
  "xferInv s = (unat (acquiredCnt (fst s)) = length (snd s)
     \<and> length (snd s) + length (freeBuffers (fst s)) \<le> MaxXferBufListSize)"

text \<open>An example: nine acquisitions on a new pool, and the pool after them.\<close>

definition xferCalls :: "(unit, nat) xferCall list" where
  "xferCalls = [Acquire 0, Acquire 1, Acquire 2, Acquire 3, Acquire 4, Acquire 5, Acquire 6,
                Acquire 7, Acquire 8]"

definition xferAfter :: "(unit, nat) XferBuffers" where
  "xferAfter = \<lparr>xb_type = (), xb_bufSize = 4096, freeBuffers = [], acquiredCnt = 8\<rparr>"

section \<open>The global heap (gpudevice.hpp, lines 373-376, 458-460, 605-606)\<close>

text \<open>
  Modelled from the spec: the classes \<open>Heap\<close> and \<open>HeapBlock\<close> are only forward-declared
  in the sources, and the bodies of \<open>Device::allocHeapBlock\<close> and \<open>Device::reallocHeap\<close>
  are not there. The spec: a HeapBlock is "{offset, size, in-use flag}", a Heap is "{size,
  ordered collection of HeapBlock, backing Resource}". Offsets and sizes are \<open>size_t\<close>
  values; they are natural numbers here, and no sum below goes beyond the heap size.
\<close>

record HeapBlock =
  hb_offset :: nat
  hb_size :: nat
  hb_inUse :: bool

record Heap =
  heap_size :: nat
  heap_blocks :: "HeapBlock list"

text \<open>Modelled from the spec: a new heap of \<open>n\<close> bytes is one free block (the end-to-end
  property starts from "a heap of N bytes").\<close>

definition Heap_create :: "nat \<Rightarrow> Heap" where
  "Heap_create n =
     \<lparr>heap_size = n, heap_blocks = [\<lparr>hb_offset = 0, hb_size = n, hb_inUse = False\<rparr>]\<rparr>"

text \<open>
  The invariant of the data model, "blocks partition the heap's address space": the
  blocks lie one after the other from \<open>off\<close> up to \<open>e\<close>.
\<close>

fun tiles :: "nat \<Rightarrow> HeapBlock list \<Rightarrow> nat \<Rightarrow> bool" where
  "tiles off [] e = (off = e)"
| "tiles off (b # bs) e = (hb_offset b = off \<and> tiles (off + hb_size b) bs e)"

definition heapWf :: "Heap \<Rightarrow> bool" where
  "heapWf h = tiles 0 (heap_blocks h) (heap_size h)"

text \<open>Two blocks overlap when their address ranges meet; no two blocks of a list
  overlap.\<close>

definition overlap :: "HeapBlock \<Rightarrow> HeapBlock \<Rightarrow> bool" where
  "overlap a b = (hb_offset a < hb_offset b + hb_size b \<and> hb_offset b < hb_offset a + hb_size a)"

fun noOverlap :: "HeapBlock list \<Rightarrow> bool" where
  "noOverlap [] = True"
| "noOverlap (b # bs) = (list_all (\<lambda>c. \<not> overlap b c) bs \<and> noOverlap bs)"

text \<open>The blocks in use, their bytes, and the bytes of the free blocks.\<close>

definition liveBlocks :: "Heap \<Rightarrow> HeapBlock list" where
  "liveBlocks h = filter hb_inUse (heap_blocks h)"

definition liveBytes :: "Heap \<Rightarrow> nat" where
  "liveBytes h = sum_list (map hb_size (liveBlocks h))"

definition freeBytes :: "Heap \<Rightarrow> nat" where
  "freeBytes h = sum_list (map hb_size (filter (\<lambda>b. \<not> hb_inUse b) (heap_blocks h)))"

text \<open>
  Modelled from the spec: "allocHeapBlock(size) returns a block of at least size bytes
  from the current heap": the first free block that is large enough gives its first \<open>n\<close>
  bytes, and what is left of it stays free.
\<close>

fun allocIn :: "nat \<Rightarrow> HeapBlock list \<Rightarrow> (HeapBlock \<times> HeapBlock list) option" where
  "allocIn n [] = None"
| "allocIn n (b # bs) =
     (if \<not> hb_inUse b \<and> n \<le> hb_size b
      then Some (\<lparr>hb_offset = hb_offset b, hb_size = n, hb_inUse = True\<rparr>,
                 if n < hb_size b
                 then \<lparr>hb_offset = hb_offset b, hb_size = n, hb_inUse = True\<rparr>
                      # \<lparr>hb_offset = hb_offset b + n, hb_size = hb_size b - n, hb_inUse = False\<rparr>
                      # bs
                 else \<lparr>hb_offset = hb_offset b, hb_size = n, hb_inUse = True\<rparr> # bs)
      else (case allocIn n bs of
              None \<Rightarrow> None
            | Some (u, bs') \<Rightarrow> Some (u, b # bs')))"

text \<open>Modelled from the spec: "free blocks adjacent in address space are coalesced".\<close>

fun coalesce :: "HeapBlock list \<Rightarrow> HeapBlock list" where
  "coalesce (a # b # bs) =
     (if \<not> hb_inUse a \<and> \<not> hb_inUse b
      then coalesce (a\<lparr>hb_size := hb_size a + hb_size b\<rparr> # bs)
      else a # coalesce (b # bs))"
| "coalesce bs = bs"

text \<open>
  Modelled from the spec: blocks are "returned to a free list on release, coalesced where
  adjacent free blocks exist". The block released is the first one in use with the offset
  and the size of the block given.
\<close>

fun freeIn :: "HeapBlock \<Rightarrow> HeapBlock list \<Rightarrow> HeapBlock list" where
  "freeIn u [] = []"
| "freeIn u (b # bs) =
     (if hb_inUse b \<and> hb_offset b = hb_offset u \<and> hb_size b = hb_size u
      then b\<lparr>hb_inUse := False\<rparr> # bs else b # freeIn u bs)"

definition freeHeapBlock :: "HeapBlock \<Rightarrow> Heap \<Rightarrow> Heap" where
  "freeHeapBlock u h = h\<lparr>heap_blocks := coalesce (freeIn u (heap_blocks h))\<rparr>"

text \<open>
  Modelled from the spec: "reallocation grows the backing Resource (copying existing live
  data)", and a native allocation failure "is reported as allocation failure, not as a
  fatal error". \<open>nativeOk\<close> is the outcome of the native allocation; the heap grows by a
  free block from its old end to \<open>sz\<close>, and a failure leaves it as it was.
\<close>

definition reallocHeap :: "bool \<Rightarrow> nat \<Rightarrow> bool \<Rightarrow> Heap \<Rightarrow> bool \<times> Heap" where
  "reallocHeap nativeOk sz remoteAlloc h =
     (if nativeOk \<and> heap_size h < sz
      then (True, \<lparr>heap_size = sz,
                   heap_blocks = coalesce (heap_blocks h @
                     [\<lparr>hb_offset = heap_size h, hb_size = sz - heap_size h,
                       hb_inUse = False\<rparr>])\<rparr>)
      else (False, h))"

text \<open>
  Modelled from the spec: allocHeapBlock "returns a block ... from the current heap, or
  triggers reallocHeap(newSize, remoteAllocHint) if no sufficiently large free region
  exists". How the new size is chosen is not in the spec and is the parameter
  \<open>newSize\<close>, from the heap size and the request. The null result \<open>None\<close> is the reported
  allocation failure.
\<close>

definition allocHeapBlock ::
  "(nat \<Rightarrow> nat \<Rightarrow> nat) \<Rightarrow> bool \<Rightarrow> nat \<Rightarrow> Heap \<Rightarrow> HeapBlock option \<times> Heap" where
  "allocHeapBlock newSize nativeOk n h =
     (case allocIn n (heap_blocks h) of
        Some (u, bs) \<Rightarrow> (Some u, h\<lparr>heap_blocks := bs\<rparr>)
      | None \<Rightarrow>
          (case reallocHeap nativeOk (newSize (heap_size h) n) False h of
             (False, h') \<Rightarrow> (None, h')
           | (True, h') \<Rightarrow>
               (case allocIn n (heap_blocks h') of
                  Some (u, bs) \<Rightarrow> (Some u, h'\<lparr>heap_blocks := bs\<rparr>)
                | None \<Rightarrow> (None, h'))))"

text \<open>A sequence of allocations (each with the outcome a native allocation would have)
  and releases.\<close>

datatype heapCall = AllocHeapBlock bool nat | FreeHeapBlock HeapBlock

fun heapRun :: "(nat \<Rightarrow> nat \<Rightarrow> nat) \<Rightarrow> heapCall list \<Rightarrow> Heap \<Rightarrow> Heap" where
  "heapRun newSize [] h = h"
| "heapRun newSize (AllocHeapBlock nativeOk n # calls) h =
     heapRun newSize calls (snd (allocHeapBlock newSize nativeOk n h))"
| "heapRun newSize (FreeHeapBlock u # calls) h = heapRun newSize calls (freeHeapBlock u h)"

text \<open>The heap an allocation is served from: the heap itself when the request fits, the
  heap after reallocation otherwise.\<close>

definition growFor :: "(nat \<Rightarrow> nat \<Rightarrow> nat) \<Rightarrow> bool \<Rightarrow> nat \<Rightarrow> Heap \<Rightarrow> Heap" where
  "growFor newSize nativeOk n h =
     (case allocIn n (heap_blocks h) of
        Some r \<Rightarrow> h
      | None \<Rightarrow> snd (reallocHeap nativeOk (newSize (heap_size h) n) False h))"

text \<open>An example: growth by the size of the request, four calls on a heap of 100 bytes,
  and the heap after them.\<close>

definition growBy :: "nat \<Rightarrow> nat \<Rightarrow> nat" where
  "growBy heapSize n = heapSize + n"

definition heapCalls :: "heapCall list" where
  "heapCalls = [AllocHeapBlock True 40, AllocHeapBlock True 30,
                FreeHeapBlock \<lparr>hb_offset = 0, hb_size = 40, hb_inUse = True\<rparr>,
                AllocHeapBlock True 50]"

definition heapAfter :: Heap where
  "heapAfter = \<lparr>heap_size = 150, heap_blocks =
     [\<lparr>hb_offset = 0, hb_size = 40, hb_inUse = False\<rparr>,
      \<lparr>hb_offset = 40, hb_size = 30, hb_inUse = True\<rparr>,
      \<lparr>hb_offset = 70, hb_size = 50, hb_inUse = True\<rparr>,
      \<lparr>hb_offset = 120, hb_size = 30, hb_inUse = False\<rparr>]\<rparr>"

section \<open>The null device\<close>

text \<open>
  C8. On the null device, for every input, \<open>createMemory\<close> and \<open>createView\<close> return
  null, \<open>reallocMemory\<close> returns true, \<open>createVirtualDevice\<close> returns null and
  \<open>globalFreeMemory\<close> returns false; the owner object, the device and the cell behind
  the output pointer are after the call what they were before it.
\<close>

theorem NullDevice_no_resource_operations:
  "NullDevice_createMemory this owner = (None, owner)
   \<and> NullDevice_createView this owner parent = (None, owner)
   \<and> NullDevice_reallocMemory this owner = (True, owner)
   \<and> NullDevice_createVirtualDevice this profiling interopQueue deviceQueueSize = (None, this)
   \<and> NullDevice_globalFreeMemory this freeMemory = (False, freeMemory)"
  by (simp add: NullDevice_createMemory_def NullDevice_createView_def
      NullDevice_reallocMemory_def NullDevice_createVirtualDevice_def
      NullDevice_globalFreeMemory_def)

text \<open>
  C10. Every call of \<open>createSampler\<close> on the null device trips the assertion
  \<open>ShouldNotReachHere\<close>, whatever the arguments; when control comes back from the
  assertion the call returns true and the cell behind \<open>sampler\<close> is not written.
\<close>

theorem NullDevice_createSampler_unreachable:
  "fst (NullDevice_createSampler continues this owner sampler) = [ShouldNotReachHere]
   \<and> snd (NullDevice_createSampler True this owner sampler) = Some (True, sampler)"
  by (simp add: NullDevice_createSampler_def)

section \<open>Scratch buffer construction\<close>

text \<open>
  C9. The constructor of \<open>ScratchBuffer\<close> sets \<open>regNum_\<close> and \<open>offset_\<close> to 0 and
  gives \<open>memObjs_\<close> the length \<open>numMems\<close> (all null), and it leaves \<open>size_\<close> as the
  storage held it: a read of \<open>size_\<close> before the first assignment can give any value.
\<close>

theorem ScratchBuffer_ctor_leaves_size:
  fixes raw :: "'mem ScratchBuffer"
  shows "sb_regNum (ScratchBuffer_ctor raw numMems) = 0
   \<and> sb_offset (ScratchBuffer_ctor raw numMems) = 0
   \<and> length (sb_memObjs (ScratchBuffer_ctor raw numMems)) = unat numMems
   \<and> set (sb_memObjs (ScratchBuffer_ctor raw numMems)) \<subseteq> {None}
   \<and> sb_size (ScratchBuffer_ctor raw numMems) = sb_size raw
   \<and> (\<forall>v. \<exists>raw' :: 'mem ScratchBuffer. sb_size (ScratchBuffer_ctor raw' numMems) = v)"
proof -
  have "\<exists>raw' :: 'mem ScratchBuffer. sb_size (ScratchBuffer_ctor raw' numMems) = v" for v
  proof
    show "sb_size (ScratchBuffer_ctor (raw\<lparr>sb_size := v\<rparr>) numMems) = v"
      by (simp add: ScratchBuffer_ctor_def)
  qed
  moreover have "sb_regNum (ScratchBuffer_ctor raw numMems) = 0"
    and "sb_offset (ScratchBuffer_ctor raw numMems) = 0"
    and "length (sb_memObjs (ScratchBuffer_ctor raw numMems)) = unat numMems"
    and "set (sb_memObjs (ScratchBuffer_ctor raw numMems)) \<subseteq> {None}"
    and "sb_size (ScratchBuffer_ctor raw numMems) = sb_size raw"
    by (auto simp: ScratchBuffer_ctor_def)
  ultimately show ?thesis
    by blast
qed

section \<open>Geometry of an SRD chunk\<close>

lemma unat_srd_product:
  assumes "unat srdSize * MaskBits < 2 ^ 32"
  shows "unat (srdSize * of_nat MaskBits :: uint) = unat srdSize * MaskBits"
  using assms by (simp add: MaskBits_def unat_word_ariths)

text \<open>
  Two inputs the constructor divides by zero on, and one where the \<open>uint\<close> product
  \<open>srdSize * MaskBits\<close> wraps to 32, so that the slots of a 4096-byte buffer would
  take 549755817984 bytes.
\<close>

lemma SrdManager_ctor_zero_divisor:
  "(SrdManager_ctor 0 4096 :: unit SrdManager option) = None"
  "(SrdManager_ctor 134217728 4096 :: unit SrdManager option) = None"
  by (simp_all add: SrdManager_ctor_def MaskBits_def)

lemma SrdManager_ctor_product_wraps:
  "map_option slotBytes (SrdManager_ctor 134217729 4096 :: unit SrdManager option)
     = Some 549755817984"
  by (simp add: SrdManager_ctor_def slotBytes_def slotsPerChunk_def MaskBits_def)

text \<open>
  C6 as stated fails: with \<open>srdSize = 64\<close> and \<open>bufSize = 5000\<close> the quotient
  truncates to 2 flag words, and the 64 slots of 64 bytes take 4096 of the 5000 bytes.
\<close>

theorem SrdManager_slots_fill_counterexample:
  "map_option slotBytes (SrdManager_ctor 64 5000 :: unit SrdManager option) = Some 4096
   \<and> map_option chunkBufBytes (SrdManager_ctor 64 5000 :: unit SrdManager option) = Some 5000"
  by (simp add: SrdManager_ctor_def slotBytes_def slotsPerChunk_def chunkBufBytes_def
      MaskBits_def)

text \<open>
  C6, amended. For every SrdManager constructed with \<open>srdSize\<close> and \<open>bufSize\<close>
  whose product \<open>srdSize * MaskBits\<close> is not zero and does not wrap, slot size times
  slots per chunk is at most the chunk buffer size; the bytes left over are
  \<open>bufSize mod (srdSize * 32)\<close>, and the slots fill the buffer exactly when \<open>bufSize\<close>
  is a multiple of \<open>srdSize * 32\<close>.
\<close>

theorem SrdManager_slots_within_buffer:
  assumes "SrdManager_ctor srdSize bufSize = Some m"
    and "unat srdSize * MaskBits < 2 ^ 32"
  shows "slotBytes m \<le> chunkBufBytes m
    \<and> chunkBufBytes m - slotBytes m = unat bufSize mod (unat srdSize * MaskBits)
    \<and> (slotBytes m = chunkBufBytes m \<longleftrightarrow> unat srdSize * MaskBits dvd unat bufSize)"
proof -
  let ?d = "unat srdSize * MaskBits"
  from assms(1) have m: "srd_numFlags m = bufSize div (srdSize * of_nat MaskBits)"
    "srd_srdSize m = srdSize" "srd_bufSize m = bufSize"
    by (auto simp: SrdManager_ctor_def split: if_splits)
  have "unat (srd_numFlags m) = unat bufSize div ?d"
    by (simp add: m unat_div unat_srd_product [OF assms(2)])
  then have sb: "slotBytes m = ?d * (unat bufSize div ?d)"
    by (simp add: slotBytes_def slotsPerChunk_def m)
  have cb: "chunkBufBytes m = unat bufSize"
    by (simp add: chunkBufBytes_def m)
  have le: "?d * (unat bufSize div ?d) \<le> unat bufSize"
    by simp
  have diff: "unat bufSize - ?d * (unat bufSize div ?d) = unat bufSize mod ?d"
    by (simp add: minus_mult_div_eq_mod)
  have "(?d * (unat bufSize div ?d) = unat bufSize) \<longleftrightarrow> ?d dvd unat bufSize"
    by (metis dvd_mult_div_cancel dvd_triv_left)
  with le diff show ?thesis
    by (simp add: sb cb)
qed

theorem SrdManager_slots_within_buffer_witness:
  "(SrdManager_ctor 64 4096 :: unit SrdManager option)
     = Some \<lparr>srd_pool = [], srd_numFlags = 2, srd_srdSize = 64, srd_bufSize = 4096\<rparr>
   \<and> unat (64 :: uint) * MaskBits < 2 ^ 32
   \<and> slotBytes \<lparr>srd_pool = [] :: unit Chunk list, srd_numFlags = 2, srd_srdSize = 64,
        srd_bufSize = 4096\<rparr> = 4096"
proof -
  have c: "(SrdManager_ctor 64 4096 :: unit SrdManager option)
     = Some \<lparr>srd_pool = [], srd_numFlags = 2, srd_srdSize = 64, srd_bufSize = 4096\<rparr>"
    by (simp add: SrdManager_ctor_def MaskBits_def)
  have b: "unat (64 :: uint) * MaskBits < 2 ^ 32"
    by (simp add: MaskBits_def)
  from SrdManager_slots_within_buffer [OF c b] c b show ?thesis
    by (simp add: chunkBufBytes_def MaskBits_def)
qed

section \<open>The VA cache\<close>

lemma find_unique:
  assumes "x \<in> set xs" and "P x" and "\<forall>y \<in> set xs. P y \<longrightarrow> y = x"
  shows "find P xs = Some x"
  using assms
proof (induction xs)
  case Nil
  then show ?case by simp
next
  case (Cons a xs)
  show ?case
  proof (cases "P a")
    case True
    with Cons.prems(3) have "a = x" by simp
    with True show ?thesis by simp
  next
    case False
    with Cons.prems(1,2) have a: "x \<in> set xs" by auto
    from Cons.prems(3) have b: "\<forall>y \<in> set xs. P y \<longrightarrow> y = x" by simp
    have "find P xs = Some x" by (rule Cons.IH [OF a Cons.prems(2) b])
    with False show ?thesis by simp
  qed
qed

lemma find_none: "(\<forall>y \<in> set xs. \<not> P y) \<Longrightarrow> find P xs = None"
  by (simp add: find_None_iff)

lemma outside_not_contains:
  assumes "endAddress x \<le> s \<or> e \<le> startAddress x" and "s \<le> p" and "p < e"
  shows "\<not> containsVA p x"
  using assms by (auto simp: containsVA_def)

lemma set_addVACache:
  "set (addVACache vaRange m c)
     = insert (VACacheEntry_ctor (fst (vaRange m)) (snd (vaRange m)) m) (set c)"
  by (simp add: addVACache_def set_insort_key)

lemma set_removeVACache: "set (removeVACache m c) = {x \<in> set c. memory x \<noteq> m}"
  by (simp add: removeVACache_def)

lemma containsVA_ctor: "containsVA p (VACacheEntry_ctor s e m) \<longleftrightarrow> s \<le> p \<and> p < e"
  by (simp add: containsVA_def VACacheEntry_ctor_def)

lemma fields_ctor:
  "memory (VACacheEntry_ctor s e m) = m" "startAddress (VACacheEntry_ctor s e m) = s"
  by (simp_all add: VACacheEntry_ctor_def)

text \<open>
  C3. Let the cached ranges be disjoint from \<open>[s, e)\<close>, the range of \<open>m\<close> (the
  data model keeps entries disjoint). After \<open>addVACache(m)\<close>, \<open>findMemoryFromVA\<close> at
  every \<open>p\<close> with \<open>s \<le> p < e\<close> returns \<open>m\<close> with offset \<open>p - s\<close>; after
  \<open>removeVACache(m)\<close> the same query returns null.
\<close>

theorem VACache_round_trip:
  assumes "vaRange m = (s, e)"
    and "\<forall>x \<in> set vaCacheList. endAddress x \<le> s \<or> e \<le> startAddress x"
    and "s \<le> p" and "p < e"
  shows "findMemoryFromVA (addVACache vaRange m vaCacheList) p = Some (m, p - s)
    \<and> findMemoryFromVA (removeVACache m (addVACache vaRange m vaCacheList)) p = None"
proof -
  let ?new = "VACacheEntry_ctor s e m"
  let ?added = "addVACache vaRange m vaCacheList"
  have others: "\<not> containsVA p x" if "x \<in> set vaCacheList" for x
  proof -
    from that assms(2) have "endAddress x \<le> s \<or> e \<le> startAddress x" by blast
    then show ?thesis using assms(3,4) by (rule outside_not_contains)
  qed
  have set_add: "set ?added = insert ?new (set vaCacheList)"
    using set_addVACache [of vaRange m vaCacheList] by (simp only: assms(1) fst_conv snd_conv)
  have new: "containsVA p ?new"
    using assms(3,4) by (simp only: containsVA_ctor)
  have mem: "?new \<in> set ?added"
    by (simp only: set_add insertI1)
  have uniq: "\<forall>y \<in> set ?added. containsVA p y \<longrightarrow> y = ?new"
    using others by (simp only: set_add) blast
  have "find (containsVA p) ?added = Some ?new"
    by (rule find_unique [where P = "containsVA p", OF mem new uniq])
  then have found: "findMemoryFromVA ?added p = Some (m, p - s)"
    by (simp only: findMemoryFromVA_def option.case fields_ctor)
  have "\<forall>y \<in> set (removeVACache m ?added). \<not> containsVA p y"
  proof
    fix y assume "y \<in> set (removeVACache m ?added)"
    then have "y \<in> set ?added" and "memory y \<noteq> m"
      by (simp_all add: set_removeVACache)
    then have "y \<in> set vaCacheList"
      using fields_ctor(1) [of s e m] by (simp only: set_add) blast
    then show "\<not> containsVA p y" by (rule others)
  qed
  then have "find (containsVA p) (removeVACache m ?added) = None"
    by (rule find_none [where P = "containsVA p"])
  then have "findMemoryFromVA (removeVACache m ?added) p = None"
    by (simp only: findMemoryFromVA_def option.case)
  with found show ?thesis by (rule conjI)
qed


theorem VACache_round_trip_witness:
  "findMemoryFromVA (addVACache pageRange 2 [VACacheEntry_ctor 0x1000 0x2000 1]) 0x2010
     = Some (2, 0x10)
   \<and> findMemoryFromVA
        (removeVACache 2 (addVACache pageRange 2 [VACacheEntry_ctor 0x1000 0x2000 1])) 0x2010
     = None"
proof -
  have r: "pageRange 2 = (0x2000, 0x3000)"
    by (simp add: pageRange_def)
  have d: "\<forall>x \<in> set [VACacheEntry_ctor 0x1000 0x2000 (1::nat)].
             endAddress x \<le> 0x2000 \<or> (0x3000 :: size_t) \<le> startAddress x"
    by (simp add: VACacheEntry_ctor_def)
  have a: "(0x2000 :: size_t) \<le> 0x2010" and b: "(0x2010 :: size_t) < 0x3000"
    by simp_all
  have "(0x2010 :: size_t) - 0x2000 = 0x10"
    by simp
  with VACache_round_trip [where vaRange = pageRange and m = "2::nat", OF r d a b] show ?thesis
    by (simp only:)
qed

section \<open>Scratch sizes\<close>

lemma sizesGrow_refl: "sizesGrow bs bs"
  by (simp add: sizesGrow_def list_all2_refl)

lemma sizesGrow_nth:
  "sizesGrow bs cs \<longleftrightarrow>
     length bs = length cs \<and> (\<forall>i < length bs. sb_size (bs ! i) \<le> sb_size (cs ! i))"
  by (simp add: sizesGrow_def list_all2_conv_all_nth)

lemma sizesGrow_trans:
  assumes "sizesGrow as bs" and "sizesGrow bs cs"
  shows "sizesGrow as cs"
proof -
  from assms have len: "length as = length bs" "length bs = length cs"
    by (simp_all add: sizesGrow_nth)
  have "sb_size (as ! i) \<le> sb_size (cs ! i)" if "i < length as" for i
  proof -
    from that assms(1) have "sb_size (as ! i) \<le> sb_size (bs ! i)"
      by (simp add: sizesGrow_nth)
    also from that len assms(2) have "sb_size (bs ! i) \<le> sb_size (cs ! i)"
      by (simp add: sizesGrow_nth)
    finally show ?thesis .
  qed
  with len show ?thesis
    by (simp add: sizesGrow_nth)
qed

lemma sizesGrow_placeScratch: "sizesGrow bs (placeScratch off bs)"
  by (induction bs arbitrary: off) (simp_all add: sizesGrow_def)

lemma sizesGrow_update:
  assumes "q < length bs" and "sb_size (bs ! q) \<le> v"
  shows "sizesGrow bs (bs[q := (bs ! q)\<lparr>sb_regNum := r, sb_size := v\<rparr>])"
  using assms by (simp add: sizesGrow_def list_all2_conv_all_nth nth_list_update)

lemma allocScratch_grows:
  assumes "allocScratch calcSize nativeOk regNum q st = Some (ok, st')"
  shows "sizesGrow (scratch st) (scratch st')"
proof (cases "calcSize regNum \<le> sb_size (scratch st ! q) \<or> \<not> nativeOk")
  case True
  with assms have "st' = st"
    by (auto simp: allocScratch_def Let_def split: if_splits)
  then show ?thesis by (simp add: sizesGrow_refl)
next
  case False
  with assms have q: "q < length (scratch st)"
    and st': "scratch st' = placeScratch 0
       ((scratch st)[q := (scratch st ! q)\<lparr>sb_regNum := regNum, sb_size := calcSize regNum\<rparr>])"
    by (auto simp: allocScratch_def Let_def split: if_splits)
  from False have "sb_size (scratch st ! q) \<le> calcSize regNum" by (meson linear)
  with q have "sizesGrow (scratch st)
       ((scratch st)[q := (scratch st ! q)\<lparr>sb_regNum := regNum, sb_size := calcSize regNum\<rparr>])"
    by (rule sizesGrow_update)
  then show ?thesis
    unfolding st' using sizesGrow_placeScratch by (rule sizesGrow_trans)
qed

lemma runScratch_grows:
  "runScratch calcSize calls st = Some st' \<Longrightarrow> sizesGrow (scratch st) (scratch st')"
proof (induction calls arbitrary: st)
  case Nil
  then show ?case by (simp add: sizesGrow_refl)
next
  case (Cons c calls)
  obtain nativeOk regNum q where c: "c = AllocScratch nativeOk regNum q"
    by (cases c)
  from Cons.prems obtain ok st1 where
    step: "allocScratch calcSize nativeOk regNum q st = Some (ok, st1)"
    and rest: "runScratch calcSize calls st1 = Some st'"
    by (auto simp: c split: option.splits)
  from step have "sizesGrow (scratch st) (scratch st1)" by (rule allocScratch_grows)
  moreover from rest have "sizesGrow (scratch st1) (scratch st')" by (rule Cons.IH)
  ultimately show ?case by (rule sizesGrow_trans)
qed

lemma allocScratch_small_request:
  assumes "q < length (scratch st)" and "calcSize regNum \<le> sb_size (scratch st ! q)"
  shows "allocScratch calcSize nativeOk regNum q st = Some (True, st)"
  using assms by (simp add: allocScratch_def Let_def)

lemma allocScratch_store_changes:
  assumes "allocScratch calcSize nativeOk regNum q st = Some (ok, st')"
    and "globalScratchBuf st' \<noteq> globalScratchBuf st"
  shows "sb_size (scratch st ! q) < calcSize regNum"
proof (rule ccontr)
  assume "\<not> sb_size (scratch st ! q) < calcSize regNum"
  then have "calcSize regNum \<le> sb_size (scratch st ! q)" by (simp add: not_less)
  with assms(1) have "st' = st"
    by (auto simp: allocScratch_def Let_def split: if_splits)
  with assms(2) show False by simp
qed

text \<open>
  C4. For every sequence of \<open>allocScratch\<close> calls over all queues, the size recorded for
  each queue is at the end at least what it was at the start; a request that needs no
  more than the queue's current allocation leaves the whole state unchanged, and the
  global scratch store changes only when the request exceeds the queue's current
  allocation.
\<close>

theorem scratch_size_never_shrinks:
  assumes "runScratch calcSize calls st = Some st'"
  shows "length (scratch st') = length (scratch st)
    \<and> (\<forall>i < length (scratch st). sb_size (scratch st ! i) \<le> sb_size (scratch st' ! i))
    \<and> (\<forall>nativeOk regNum q. q < length (scratch st')
          \<and> calcSize regNum \<le> sb_size (scratch st' ! q)
          \<longrightarrow> allocScratch calcSize nativeOk regNum q st' = Some (True, st'))
    \<and> (\<forall>nativeOk regNum q ok st''.
          allocScratch calcSize nativeOk regNum q st' = Some (ok, st'')
          \<and> globalScratchBuf st'' \<noteq> globalScratchBuf st'
          \<longrightarrow> sb_size (scratch st' ! q) < calcSize regNum)"
proof -
  from assms have "sizesGrow (scratch st) (scratch st')" by (rule runScratch_grows)
  then have "length (scratch st') = length (scratch st)"
    and "\<forall>i < length (scratch st). sb_size (scratch st ! i) \<le> sb_size (scratch st' ! i)"
    by (simp_all add: sizesGrow_def list_all2_conv_all_nth)
  moreover have "\<forall>nativeOk regNum q. q < length (scratch st')
          \<and> calcSize regNum \<le> sb_size (scratch st' ! q)
          \<longrightarrow> allocScratch calcSize nativeOk regNum q st' = Some (True, st')"
    using allocScratch_small_request by blast
  moreover have "\<forall>nativeOk regNum q ok st''.
          allocScratch calcSize nativeOk regNum q st' = Some (ok, st'')
          \<and> globalScratchBuf st'' \<noteq> globalScratchBuf st'
          \<longrightarrow> sb_size (scratch st' ! q) < calcSize regNum"
    using allocScratch_store_changes by blast
  ultimately show ?thesis by blast
qed


theorem scratch_size_never_shrinks_witness:
  "runScratch calcSizeExample
     [AllocScratch True 4 0, AllocScratch True 2 (Suc 0), AllocScratch True 1 0] scratchExample
     = Some scratchExampleAfter
   \<and> sb_size (scratch scratchExample ! 0) \<le> sb_size (scratch scratchExampleAfter ! 0)
   \<and> allocScratch calcSizeExample True 1 0 scratchExampleAfter = Some (True, scratchExampleAfter)"
proof -
  have run: "runScratch calcSizeExample
     [AllocScratch True 4 0, AllocScratch True 2 (Suc 0), AllocScratch True 1 0] scratchExample
     = Some scratchExampleAfter"
    by (simp add: allocScratch_def Let_def scratchBytes_def calcSizeExample_def
      scratchExample_def scratchExampleAfter_def)
  have len: "0 < length (scratch scratchExample)" "0 < length (scratch scratchExampleAfter)"
    by (simp_all add: scratchExample_def scratchExampleAfter_def)
  have small: "calcSizeExample 1 \<le> sb_size (scratch scratchExampleAfter ! 0)"
    by (simp add: calcSizeExample_def scratchExampleAfter_def)
  from scratch_size_never_shrinks [OF run] len small run show ?thesis
    by blast
qed

section \<open>SRD slot allocation\<close>



lemma length_writeFlag [simp]: "length (writeFlag v s fl) = length fl"
  by (simp add: writeFlag_def)


lemma chunkWords_update [simp]: "chunkWords (ch\<lparr>chunk_flags := Some fl\<rparr>) = fl"
  by (simp add: chunkWords_def)

lemma length_writeSlot [simp]: "length (writeSlot v h pool) = length pool"
  by (simp add: writeSlot_def)











lemma numFlags_takeSlot [simp]: "srd_numFlags (takeSlot h m) = srd_numFlags m"
  by (simp add: takeSlot_def)

lemma numFlags_addChunk [simp]: "srd_numFlags (addChunk buf m) = srd_numFlags m"
  by (simp add: addChunk_def)



lemma chunkWords_newChunk [simp]: "chunkWords (newChunk buf n) = replicate (unat n) 0"
  by (simp add: chunkWords_def newChunk_def)






















section \<open>The transfer buffer pool\<close>

lemma cnt_inc: "unat (c :: uint) < 8 \<Longrightarrow> unat (c + 1) = unat c + 1"
  by (simp add: unat_word_ariths)

lemma cnt_dec: "0 < unat (c :: uint) \<Longrightarrow> unat (c - 1) = unat c - 1"
  by (rule unat_minus_one) (simp add: unat_gt_0)

lemma xferInv_init: "xferInv (XferBuffers_ctor type bufSize, [])"
  by (simp add: xferInv_def XferBuffers_ctor_def)

lemma acquire_idle:
  "freeBuffers xb = b # rest \<Longrightarrow>
   acquire fresh xb = (Acquired b, xb\<lparr>freeBuffers := rest, acquiredCnt := acquiredCnt xb + 1\<rparr>)"
  by (simp add: acquire_def)

lemma acquire_new:
  "freeBuffers xb = [] \<Longrightarrow> createdBuffers xb < MaxXferBufListSize \<Longrightarrow>
   acquire fresh xb = (Acquired fresh, xb\<lparr>acquiredCnt := acquiredCnt xb + 1\<rparr>)"
  by (simp add: acquire_def)

lemma acquire_blocked:
  "freeBuffers xb = [] \<Longrightarrow> MaxXferBufListSize \<le> createdBuffers xb \<Longrightarrow>
   acquire fresh xb = (Blocked, xb)"
  by (simp add: acquire_def)

lemma xferInv_acquire:
  assumes "xferInv (xb, held)"
  shows "case acquire fresh xb of
           (Acquired b, xb') \<Rightarrow> xferInv (xb', b # held)
         | (Blocked, xb') \<Rightarrow> xferInv (xb', held)"
proof (cases "freeBuffers xb")
  case (Cons b rest)
  from assms Cons have c: "unat (acquiredCnt xb) < 8"
    by (simp add: xferInv_def MaxXferBufListSize_def)
  from assms Cons c show ?thesis
    by (simp add: acquire_idle [OF Cons] xferInv_def cnt_inc)
next
  case Nil
  show ?thesis
  proof (cases "MaxXferBufListSize \<le> createdBuffers xb")
    case True
    with assms show ?thesis
      by (simp add: acquire_blocked [OF Nil True])
  next
    case False
    then have lt: "createdBuffers xb < MaxXferBufListSize" by simp
    with Nil have c: "unat (acquiredCnt xb) < 8"
      by (simp add: createdBuffers_def MaxXferBufListSize_def)
    from assms Nil c show ?thesis
      by (simp add: acquire_new [OF Nil lt] xferInv_def cnt_inc MaxXferBufListSize_def)
  qed
qed

lemma xferInv_release:
  assumes "xferInv (xb, held)" and "b \<in> set held"
  shows "xferInv (release gpu b xb, remove1 b held)"
proof -
  from assms(2) have "0 < length held"
    by (cases held) simp_all
  then obtain k where k: "length held = Suc k"
    by (cases "length held") simp_all
  from assms(2) k have l: "length (remove1 b held) = k"
    by (simp add: length_remove1)
  from assms(1) k have "0 < unat (acquiredCnt xb)"
    by (simp add: xferInv_def)
  then have "unat (acquiredCnt xb - 1) = unat (acquiredCnt xb) - 1"
    by (rule cnt_dec)
  with assms(1) k have c: "unat (acquiredCnt xb - 1) = k"
    by (simp add: xferInv_def)
  from assms(1) k have "k + length (freeBuffers xb @ [b]) \<le> MaxXferBufListSize"
    by (simp add: xferInv_def)
  with c l show ?thesis
    by (simp add: xferInv_def release_def)
qed

lemma xferInv_run:
  "xferInv s \<Longrightarrow> xferRun calls s = Some s' \<Longrightarrow> xferInv s'"
proof (induction calls s arbitrary: s' rule: xferRun.induct)
  case (1 s)
  then show ?case by simp
next
  case (2 fresh calls xb held)
  from "2.prems"(1) have step: "case acquire fresh xb of
           (Acquired b, xb') \<Rightarrow> xferInv (xb', b # held)
         | (Blocked, xb') \<Rightarrow> xferInv (xb', held)"
    by (rule xferInv_acquire)
  obtain r xb' where a: "acquire fresh xb = (r, xb')"
    by (cases "acquire fresh xb")
  show ?case
  proof (cases r)
    case Blocked
    from step have inv: "xferInv (xb', held)" by (simp add: a Blocked)
    from "2.prems"(2) have run: "xferRun calls (xb', held) = Some s'"
      by (simp add: a Blocked)
    show ?thesis
      by (rule "2.IH"(1) [OF a [symmetric] Blocked inv run])
  next
    case (Acquired b)
    from step have inv: "xferInv (xb', b # held)" by (simp add: a Acquired)
    from "2.prems"(2) have run: "xferRun calls (xb', b # held) = Some s'"
      by (simp add: a Acquired)
    show ?thesis
      by (rule "2.IH"(2) [OF a [symmetric] Acquired inv run])
  qed
next
  case (3 gpu b calls xb held)
  from "3.prems"(2) have mem: "b \<in> set held"
    by (simp split: if_splits)
  with "3.prems"(2) have run: "xferRun calls (release gpu b xb, remove1 b held) = Some s'"
    by simp
  from "3.prems"(1) mem have inv: "xferInv (release gpu b xb, remove1 b held)"
    by (rule xferInv_release)
  show ?case
    by (rule "3.IH" [OF mem inv run])
qed


lemma acquire_after_release:
  "fst (acquire fresh (release gpu b xb)) = Acquired (hd (freeBuffers xb @ [b]))"
  by (cases "freeBuffers xb") (simp_all add: acquire_def release_def)

text \<open>
  C2. For every sequence of \<open>acquire\<close> and \<open>release\<close> calls on a new pool, the buffers
  acquired and not yet released are never more than \<open>MaxXferBufListSize = 8\<close>, the counter
  \<open>acquiredCnt_\<close> is their number, and no more than 8 buffers exist. With 8 held and
  none idle, \<open>acquire\<close> blocks and creates nothing, and after any release it returns a
  buffer; otherwise \<open>acquire\<close> returns the first idle buffer, or a new one when none is
  idle.
\<close>

theorem xfer_acquired_bounded:
  fixes calls :: "('gpu, 'res) xferCall list"
  assumes "xferRun calls (XferBuffers_ctor type bufSize, []) = Some (xb, held)"
  shows "length held \<le> MaxXferBufListSize
    \<and> unat (acquiredCnt xb) = length held
    \<and> createdBuffers xb \<le> MaxXferBufListSize
    \<and> (\<forall>fresh. freeBuffers xb = [] \<and> length held = MaxXferBufListSize
          \<longrightarrow> acquire fresh xb = (Blocked, xb))
    \<and> (\<forall>fresh (gpu :: 'gpu) b. b \<in> set held
          \<longrightarrow> fst (acquire fresh (release gpu b xb)) = Acquired (hd (freeBuffers xb @ [b])))
    \<and> (\<forall>fresh. \<not> (freeBuffers xb = [] \<and> length held = MaxXferBufListSize)
          \<longrightarrow> fst (acquire fresh xb)
              = Acquired (case freeBuffers xb of [] \<Rightarrow> fresh | b # rest \<Rightarrow> b))"
proof -
  have "xferInv (xb, held)"
    using xferInv_init assms by (rule xferInv_run)
  then have cnt: "unat (acquiredCnt xb) = length held"
    and sum: "length held + length (freeBuffers xb) \<le> MaxXferBufListSize"
    by (simp_all add: xferInv_def)
  from sum have bound: "length held \<le> MaxXferBufListSize"
    by simp
  from cnt sum have created: "createdBuffers xb \<le> MaxXferBufListSize"
    by (simp add: createdBuffers_def)
  have blocked: "\<forall>fresh. freeBuffers xb = [] \<and> length held = MaxXferBufListSize
          \<longrightarrow> acquire fresh xb = (Blocked, xb)"
    by (simp add: acquire_blocked createdBuffers_def cnt)
  have released: "\<forall>fresh (gpu :: 'gpu) b. b \<in> set held
          \<longrightarrow> fst (acquire fresh (release gpu b xb)) = Acquired (hd (freeBuffers xb @ [b]))"
    by (simp add: acquire_after_release)
  have other: "fst (acquire fresh xb)
              = Acquired (case freeBuffers xb of [] \<Rightarrow> fresh | b # rest \<Rightarrow> b)"
    if "\<not> (freeBuffers xb = [] \<and> length held = MaxXferBufListSize)" for fresh
  proof (cases "freeBuffers xb")
    case (Cons b rest)
    then show ?thesis
      by (simp add: acquire_idle [OF Cons])
  next
    case Nil
    with that bound have "length held < MaxXferBufListSize"
      by simp
    with Nil cnt have "createdBuffers xb < MaxXferBufListSize"
      by (simp add: createdBuffers_def)
    with Nil show ?thesis
      by (simp add: acquire_new)
  qed
  from bound cnt created blocked released other show ?thesis
    by (intro conjI allI impI) blast+
qed

theorem xfer_acquired_bounded_witness:
  "xferRun xferCalls (XferBuffers_ctor () 4096, []) = Some (xferAfter, [7, 6, 5, 4, 3, 2, 1, 0])
   \<and> length [7, 6, 5, 4, 3, 2, 1, 0 :: nat] \<le> MaxXferBufListSize
   \<and> acquire 9 xferAfter = (Blocked, xferAfter)
   \<and> fst (acquire 9 (release () 3 xferAfter)) = Acquired 3"
proof -
  have run: "xferRun xferCalls (XferBuffers_ctor () 4096, [])
      = Some (xferAfter, [7, 6, 5, 4, 3, 2, 1, 0])"
    by (simp add: xferCalls_def xferAfter_def XferBuffers_ctor_def acquire_def
        createdBuffers_def MaxXferBufListSize_def)
  note t = xfer_acquired_bounded [OF run]
  have full: "freeBuffers xferAfter = [] \<and> length [7, 6, 5, 4, 3, 2, 1, 0 :: nat] = MaxXferBufListSize"
    by (simp add: xferAfter_def MaxXferBufListSize_def)
  have mem: "(3 :: nat) \<in> set [7, 6, 5, 4, 3, 2, 1, 0]"
    by simp
  from t have bound: "length [7, 6, 5, 4, 3, 2, 1, 0 :: nat] \<le> MaxXferBufListSize"
    by (rule conjunct1)
  from t full have blocked: "acquire 9 xferAfter = (Blocked, xferAfter)"
    by blast
  from t mem have "fst (acquire 9 (release () 3 xferAfter))
      = Acquired (hd (freeBuffers xferAfter @ [3]))"
    by blast
  then have rel: "fst (acquire 9 (release () 3 xferAfter)) = Acquired 3"
    by (simp add: xferAfter_def)
  from run bound blocked rel show ?thesis
    by (intro conjI)
qed

section \<open>Heap blocks\<close>

lemma tiles_le: "tiles off bs e \<Longrightarrow> off \<le> e"
proof (induction bs arbitrary: off)
  case Nil
  then show ?case by simp
next
  case (Cons b bs)
  from Cons.prems have "tiles (off + hb_size b) bs e" by simp
  then have "off + hb_size b \<le> e" by (rule Cons.IH)
  then show ?case by simp
qed

lemma tiles_bounds:
  "tiles off bs e \<Longrightarrow> b \<in> set bs \<Longrightarrow> off \<le> hb_offset b \<and> hb_offset b + hb_size b \<le> e"
proof (induction bs arbitrary: off)
  case Nil
  then show ?case by simp
next
  case (Cons a bs)
  from Cons.prems(1) have hd: "hb_offset a = off" and tl: "tiles (off + hb_size a) bs e"
    by simp_all
  show ?case
  proof (cases "b = a")
    case True
    from tl have "off + hb_size a \<le> e" by (rule tiles_le)
    with True hd show ?thesis by simp
  next
    case False
    with Cons.prems(2) have "b \<in> set bs" by simp
    with tl have "off + hb_size a \<le> hb_offset b \<and> hb_offset b + hb_size b \<le> e"
      by (rule Cons.IH)
    then show ?thesis by simp
  qed
qed

lemma tiles_sum: "tiles off bs e \<Longrightarrow> off + sum_list (map hb_size bs) = e"
proof (induction bs arbitrary: off)
  case Nil
  then show ?case by simp
next
  case (Cons b bs)
  from Cons.prems have "tiles (off + hb_size b) bs e" by simp
  then have "off + hb_size b + sum_list (map hb_size bs) = e" by (rule Cons.IH)
  then show ?case by simp
qed

lemma tiles_noOverlap: "tiles off bs e \<Longrightarrow> noOverlap bs"
proof (induction bs arbitrary: off)
  case Nil
  then show ?case by simp
next
  case (Cons b bs)
  from Cons.prems have hd: "hb_offset b = off" and tl: "tiles (off + hb_size b) bs e"
    by simp_all
  have "\<not> overlap b c" if "c \<in> set bs" for c
  proof -
    from tl that have "off + hb_size b \<le> hb_offset c"
      using tiles_bounds by blast
    with hd show ?thesis by (simp add: overlap_def)
  qed
  then have "list_all (\<lambda>c. \<not> overlap b c) bs"
    by (simp add: list_all_iff)
  moreover from tl have "noOverlap bs" by (rule Cons.IH)
  ultimately show ?case by simp
qed

lemma noOverlap_filter: "noOverlap bs \<Longrightarrow> noOverlap (filter P bs)"
  by (induction bs) (simp_all add: list_all_iff)

lemma sum_filter_le: "sum_list (map hb_size (filter P bs)) \<le> sum_list (map hb_size bs)"
  by (induction bs) simp_all

lemma tiles_append: "tiles off bs m \<Longrightarrow> tiles m cs e \<Longrightarrow> tiles off (bs @ cs) e"
  by (induction bs arbitrary: off) simp_all

lemma tiles_coalesce: "tiles off bs e \<Longrightarrow> tiles off (coalesce bs) e"
  by (induction bs arbitrary: off rule: coalesce.induct) (simp_all add: add.assoc)

lemma tiles_freeIn: "tiles off bs e \<Longrightarrow> tiles off (freeIn u bs) e"
proof (induction bs arbitrary: off)
  case Nil
  then show ?case by simp
next
  case (Cons a bs)
  show ?case
  proof (cases "hb_inUse a \<and> hb_offset a = hb_offset u \<and> hb_size a = hb_size u")
    case True
    then have eq: "freeIn u (a # bs) = a\<lparr>hb_inUse := False\<rparr> # bs"
      by simp
    from Cons.prems have "tiles off (a\<lparr>hb_inUse := False\<rparr> # bs) e"
      by simp
    then show ?thesis
      by (simp only: eq)
  next
    case False
    then have eq: "freeIn u (a # bs) = a # freeIn u bs"
      by (simp only: freeIn.simps if_False)
    from Cons.prems have "tiles (off + hb_size a) bs e" and hd: "hb_offset a = off"
      by simp_all
    then have "tiles (off + hb_size a) (freeIn u bs) e"
      by (intro Cons.IH)
    with hd show ?thesis
      by (simp only: eq tiles.simps simp_thms)
  qed
qed

lemma live_coalesce: "filter hb_inUse (coalesce bs) = filter hb_inUse bs"
  by (induction bs rule: coalesce.induct) simp_all


lemma allocIn_tiles:
  "tiles off bs e \<Longrightarrow> allocIn n bs = Some (u, bs') \<Longrightarrow> tiles off bs' e"
  by (induction bs arbitrary: off bs') (auto split: if_splits option.splits)

lemma allocIn_block:
  "allocIn n bs = Some (u, bs') \<Longrightarrow> u \<in> set bs' \<and> hb_inUse u \<and> hb_size u = n"
  by (induction bs arbitrary: bs') (auto split: if_splits option.splits)

lemma allocIn_live:
  "allocIn n bs = Some (u, bs') \<Longrightarrow> set (filter hb_inUse bs) \<subseteq> set (filter hb_inUse bs')"
  by (induction bs arbitrary: bs') (auto split: if_splits option.splits)


lemma allocIn_bounds:
  "tiles off bs e \<Longrightarrow> allocIn n bs = Some (u, bs') \<Longrightarrow>
   off \<le> hb_offset u \<and> hb_offset u + hb_size u \<le> e"
proof -
  assume t: "tiles off bs e" and a: "allocIn n bs = Some (u, bs')"
  from t a have "tiles off bs' e" by (rule allocIn_tiles)
  moreover from a have "u \<in> set bs'" using allocIn_block by blast
  ultimately show ?thesis by (rule tiles_bounds)
qed

lemma allocIn_no_overlap:
  "tiles off bs e \<Longrightarrow> allocIn n bs = Some (u, bs') \<Longrightarrow> c \<in> set bs \<Longrightarrow> hb_inUse c \<Longrightarrow>
   \<not> overlap u c"
proof (induction bs arbitrary: off bs')
  case Nil
  then show ?case by simp
next
  case (Cons b bs)
  from Cons.prems(1) have hd: "hb_offset b = off" and tl: "tiles (off + hb_size b) bs e"
    by simp_all
  show ?case
  proof (cases "\<not> hb_inUse b \<and> n \<le> hb_size b")
    case True
    with Cons.prems(2) have u: "hb_offset u = off" "hb_size u = n"
      using hd by (auto split: if_splits)
    from True Cons.prems(3,4) have "c \<in> set bs" by auto
    with tl have "off + hb_size b \<le> hb_offset c"
      using tiles_bounds by blast
    with True u show ?thesis
      by (simp add: overlap_def)
  next
    case False
    with Cons.prems(2) obtain bs0 where a: "allocIn n bs = Some (u, bs0)"
      by (auto split: option.splits)
    from tl a have ub: "off + hb_size b \<le> hb_offset u"
      using allocIn_bounds by blast
    show ?thesis
    proof (cases "c = b")
      case True
      with hd ub show ?thesis by (simp add: overlap_def)
    next
      case False
      with Cons.prems(3) have "c \<in> set bs" by simp
      with tl a show ?thesis
        using Cons.prems(4) by (rule Cons.IH)
    qed
  qed
qed

lemma allocIn_too_large:
  "sum_list (map hb_size (filter (\<lambda>b. \<not> hb_inUse b) bs)) < n \<Longrightarrow> allocIn n bs = None"
  by (induction bs) (auto split: if_splits)


lemma heapWf_create: "heapWf (Heap_create n)"
  by (simp add: heapWf_def Heap_create_def)

lemma heapWf_free: "heapWf h \<Longrightarrow> heapWf (freeHeapBlock u h)"
  by (simp add: heapWf_def freeHeapBlock_def tiles_coalesce tiles_freeIn)

lemma reallocHeap_ok:
  "nativeOk \<Longrightarrow> heap_size h < sz \<Longrightarrow>
   reallocHeap nativeOk sz remoteAlloc h =
     (True, \<lparr>heap_size = sz,
             heap_blocks = coalesce (heap_blocks h @
               [\<lparr>hb_offset = heap_size h, hb_size = sz - heap_size h, hb_inUse = False\<rparr>])\<rparr>)"
  by (simp add: reallocHeap_def)

lemma reallocHeap_fail:
  "\<not> (nativeOk \<and> heap_size h < sz) \<Longrightarrow> reallocHeap nativeOk sz remoteAlloc h = (False, h)"
  by (simp only: reallocHeap_def if_False)

lemma reallocHeap_wf:
  assumes "heapWf h"
  shows "heapWf (snd (reallocHeap nativeOk sz remoteAlloc h))"
proof (cases "nativeOk \<and> heap_size h < sz")
  case True
  from assms have "tiles 0 (heap_blocks h) (heap_size h)"
    by (simp add: heapWf_def)
  moreover from True have "tiles (heap_size h)
      [\<lparr>hb_offset = heap_size h, hb_size = sz - heap_size h, hb_inUse = False\<rparr>] sz"
    by simp
  ultimately have "tiles 0 (heap_blocks h @
      [\<lparr>hb_offset = heap_size h, hb_size = sz - heap_size h, hb_inUse = False\<rparr>]) sz"
    by (rule tiles_append)
  then have "tiles 0 (coalesce (heap_blocks h @
      [\<lparr>hb_offset = heap_size h, hb_size = sz - heap_size h, hb_inUse = False\<rparr>])) sz"
    by (rule tiles_coalesce)
  with True show ?thesis
    by (simp add: reallocHeap_ok heapWf_def)
next
  case False
  then have "reallocHeap nativeOk sz remoteAlloc h = (False, h)"
    by (rule reallocHeap_fail)
  with assms show ?thesis
    by simp
qed

lemma reallocHeap_live:
  "liveBlocks (snd (reallocHeap nativeOk sz remoteAlloc h)) = liveBlocks h"
  by (simp add: reallocHeap_def liveBlocks_def live_coalesce)

lemma reallocHeap_size:
  "heap_size h \<le> heap_size (snd (reallocHeap nativeOk sz remoteAlloc h))"
  by (simp add: reallocHeap_def)

lemma reallocHeap_changed:
  "snd (reallocHeap nativeOk sz remoteAlloc h) \<noteq> h \<Longrightarrow>
   heap_size h < heap_size (snd (reallocHeap nativeOk sz remoteAlloc h))"
  by (simp add: reallocHeap_def split: if_splits)

lemma allocHeapBlock_fit:
  "allocIn n (heap_blocks h) = Some (u, bs) \<Longrightarrow>
   allocHeapBlock newSize nativeOk n h = (Some u, h\<lparr>heap_blocks := bs\<rparr>)"
  by (simp add: allocHeapBlock_def)

lemma allocHeapBlock_grow:
  "allocIn n (heap_blocks h) = None \<Longrightarrow>
   allocHeapBlock newSize nativeOk n h =
     (case allocIn n (heap_blocks (snd (reallocHeap nativeOk (newSize (heap_size h) n) False h))) of
        Some (u, bs) \<Rightarrow>
          (Some u, (snd (reallocHeap nativeOk (newSize (heap_size h) n) False h))\<lparr>heap_blocks := bs\<rparr>)
      | None \<Rightarrow> (None, snd (reallocHeap nativeOk (newSize (heap_size h) n) False h)))"
proof (cases "nativeOk \<and> heap_size h < newSize (heap_size h) n")
  case True
  assume none: "allocIn n (heap_blocks h) = None"
  from True have r: "reallocHeap nativeOk (newSize (heap_size h) n) False h =
     (True, \<lparr>heap_size = newSize (heap_size h) n,
             heap_blocks = coalesce (heap_blocks h @
               [\<lparr>hb_offset = heap_size h, hb_size = newSize (heap_size h) n - heap_size h,
                 hb_inUse = False\<rparr>])\<rparr>)"
    by (simp add: reallocHeap_ok)
  show ?thesis
    unfolding allocHeapBlock_def none r by (simp split: option.splits)
next
  case False
  assume none: "allocIn n (heap_blocks h) = None"
  from False have r: "reallocHeap nativeOk (newSize (heap_size h) n) False h = (False, h)"
    by (rule reallocHeap_fail)
  show ?thesis
    unfolding allocHeapBlock_def none r by (simp add: none)
qed

lemma allocHeapBlock_growFor:
  "allocHeapBlock newSize nativeOk n h =
     (case allocIn n (heap_blocks (growFor newSize nativeOk n h)) of
        Some (u, bs) \<Rightarrow> (Some u, (growFor newSize nativeOk n h)\<lparr>heap_blocks := bs\<rparr>)
      | None \<Rightarrow> (None, growFor newSize nativeOk n h))"
proof (cases "allocIn n (heap_blocks h)")
  case (Some r)
  obtain u bs where r: "r = (u, bs)" by (cases r)
  from Some have g: "growFor newSize nativeOk n h = h"
    by (simp add: growFor_def)
  from Some r have "allocHeapBlock newSize nativeOk n h = (Some u, h\<lparr>heap_blocks := bs\<rparr>)"
    by (simp add: allocHeapBlock_fit)
  with Some r show ?thesis
    unfolding g by simp
next
  case None
  then have g: "growFor newSize nativeOk n h
      = snd (reallocHeap nativeOk (newSize (heap_size h) n) False h)"
    by (simp add: growFor_def)
  from None show ?thesis
    unfolding g by (rule allocHeapBlock_grow)
qed

lemma growFor_wf: "heapWf h \<Longrightarrow> heapWf (growFor newSize nativeOk n h)"
  by (cases "allocIn n (heap_blocks h)") (simp_all add: growFor_def reallocHeap_wf)

lemma growFor_live: "liveBlocks (growFor newSize nativeOk n h) = liveBlocks h"
  by (cases "allocIn n (heap_blocks h)") (simp_all add: growFor_def reallocHeap_live)

lemma growFor_size: "heap_size h \<le> heap_size (growFor newSize nativeOk n h)"
  by (cases "allocIn n (heap_blocks h)") (simp_all add: growFor_def reallocHeap_size)

lemma growFor_changed:
  "growFor newSize nativeOk n h \<noteq> h \<Longrightarrow> heap_size h < heap_size (growFor newSize nativeOk n h)"
  by (cases "allocIn n (heap_blocks h)") (simp_all add: growFor_def reallocHeap_changed)


lemma allocHeapBlock_wf:
  assumes "heapWf h"
  shows "heapWf (snd (allocHeapBlock newSize nativeOk n h))"
proof -
  let ?g = "growFor newSize nativeOk n h"
  from assms have g: "tiles 0 (heap_blocks ?g) (heap_size ?g)"
    using growFor_wf by (simp add: heapWf_def)
  show ?thesis
  proof (cases "allocIn n (heap_blocks ?g)")
    case None
    with g show ?thesis
      by (simp add: allocHeapBlock_growFor heapWf_def)
  next
    case (Some r)
    obtain u bs where r: "r = (u, bs)" by (cases r)
    from g Some r have "tiles 0 bs (heap_size ?g)"
      using allocIn_tiles by blast
    with Some r show ?thesis
      by (simp add: allocHeapBlock_growFor heapWf_def)
  qed
qed

lemma allocHeapBlock_Some:
  assumes "heapWf h" and "allocHeapBlock newSize nativeOk n h = (Some u, h')"
  shows "hb_size u = n \<and> hb_offset u + hb_size u \<le> heap_size h'
    \<and> list_all (\<lambda>c. \<not> overlap u c) (liveBlocks h) \<and> u \<in> set (liveBlocks h')"
proof -
  let ?g = "growFor newSize nativeOk n h"
  from assms(1) have g: "tiles 0 (heap_blocks ?g) (heap_size ?g)"
    using growFor_wf by (simp add: heapWf_def)
  from assms(2) obtain bs where a: "allocIn n (heap_blocks ?g) = Some (u, bs)"
    and h': "h' = ?g\<lparr>heap_blocks := bs\<rparr>"
    by (cases "allocIn n (heap_blocks ?g)") (auto simp: allocHeapBlock_growFor)
  from a have blk: "u \<in> set bs" "hb_inUse u" "hb_size u = n"
    using allocIn_block by blast+
  from g a have "hb_offset u + hb_size u \<le> heap_size ?g"
    using allocIn_bounds by blast
  then have bound: "hb_offset u + hb_size u \<le> heap_size h'"
    by (simp add: h')
  have "\<not> overlap u c" if "c \<in> set (liveBlocks h)" for c
  proof -
    from that have "c \<in> set (liveBlocks ?g)"
      by (simp add: growFor_live)
    then have "c \<in> set (heap_blocks ?g)" and "hb_inUse c"
      by (simp_all add: liveBlocks_def)
    with g a show ?thesis
      by (rule allocIn_no_overlap)
  qed
  then have apart: "list_all (\<lambda>c. \<not> overlap u c) (liveBlocks h)"
    by (simp add: list_all_iff)
  from blk have "u \<in> set (liveBlocks h')"
    by (simp add: liveBlocks_def h')
  with blk(3) bound apart show ?thesis
    by simp
qed

lemma heap_size_alloc:
  "heap_size (snd (allocHeapBlock newSize nativeOk n h)) = heap_size (growFor newSize nativeOk n h)"
  by (cases "allocIn n (heap_blocks (growFor newSize nativeOk n h))")
     (auto simp: allocHeapBlock_growFor)

lemma allocHeapBlock_exceeds:
  assumes "freeBytes h < n"
  shows "fst (allocHeapBlock newSize nativeOk n h) = None
    \<or> heap_size h < heap_size (snd (allocHeapBlock newSize nativeOk n h))"
proof (cases "growFor newSize nativeOk n h = h")
  case True
  from assms have "allocIn n (heap_blocks h) = None"
    unfolding freeBytes_def by (rule allocIn_too_large)
  then have "fst (allocHeapBlock newSize nativeOk n h) = None"
    by (simp add: allocHeapBlock_growFor True)
  then show ?thesis ..
next
  case False
  then have "heap_size h < heap_size (growFor newSize nativeOk n h)"
    by (rule growFor_changed)
  then show ?thesis
    by (simp add: heap_size_alloc)
qed

lemma heapWf_run: "heapWf h \<Longrightarrow> heapWf (heapRun newSize calls h)"
proof (induction calls arbitrary: h)
  case Nil
  then show ?case by simp
next
  case (Cons c calls)
  show ?case
  proof (cases c)
    case (AllocHeapBlock nativeOk n)
    from Cons.prems have "heapWf (snd (allocHeapBlock newSize nativeOk n h))"
      by (rule allocHeapBlock_wf)
    then have "heapWf (heapRun newSize calls (snd (allocHeapBlock newSize nativeOk n h)))"
      by (rule Cons.IH)
    then show ?thesis by (simp add: AllocHeapBlock)
  next
    case (FreeHeapBlock u)
    from Cons.prems have "heapWf (freeHeapBlock u h)"
      by (rule heapWf_free)
    then have "heapWf (heapRun newSize calls (freeHeapBlock u h))"
      by (rule Cons.IH)
    then show ?thesis by (simp add: FreeHeapBlock)
  qed
qed

lemma heapWf_live:
  assumes "heapWf h"
  shows "noOverlap (liveBlocks h) \<and> liveBytes h \<le> heap_size h"
proof -
  from assms have t: "tiles 0 (heap_blocks h) (heap_size h)"
    by (simp add: heapWf_def)
  then have "noOverlap (heap_blocks h)"
    by (rule tiles_noOverlap)
  then have a: "noOverlap (liveBlocks h)"
    unfolding liveBlocks_def by (rule noOverlap_filter)
  from t have "0 + sum_list (map hb_size (heap_blocks h)) = heap_size h"
    by (rule tiles_sum)
  moreover have "liveBytes h \<le> sum_list (map hb_size (heap_blocks h))"
    unfolding liveBytes_def liveBlocks_def by (rule sum_filter_le)
  ultimately have "liveBytes h \<le> heap_size h"
    by simp
  with a show ?thesis ..
qed

text \<open>
  C1. For every sequence of \<open>allocHeapBlock\<close> calls and block releases on a heap, no two
  live blocks overlap and their sizes add up to at most the heap size. A block that
  \<open>allocHeapBlock\<close> returns has at least the size asked for, lies in the heap, is live and
  overlaps no block that was live before the call, and the heap after the call is again
  without overlap. A request larger than the free space ends in a reported failure or in
  a heap that reallocation has grown.
\<close>

theorem heap_blocks_never_overlap:
  "noOverlap (liveBlocks (heapRun newSize calls (Heap_create size0)))
   \<and> liveBytes (heapRun newSize calls (Heap_create size0))
       \<le> heap_size (heapRun newSize calls (Heap_create size0))
   \<and> (\<forall>nativeOk n u h'.
         allocHeapBlock newSize nativeOk n (heapRun newSize calls (Heap_create size0)) = (Some u, h')
         \<longrightarrow> n \<le> hb_size u \<and> hb_offset u + hb_size u \<le> heap_size h'
           \<and> list_all (\<lambda>c. \<not> overlap u c) (liveBlocks (heapRun newSize calls (Heap_create size0)))
           \<and> u \<in> set (liveBlocks h') \<and> noOverlap (liveBlocks h')
           \<and> liveBytes h' \<le> heap_size h')
   \<and> (\<forall>nativeOk n. freeBytes (heapRun newSize calls (Heap_create size0)) < n
         \<longrightarrow> fst (allocHeapBlock newSize nativeOk n (heapRun newSize calls (Heap_create size0))) = None
           \<or> heap_size (heapRun newSize calls (Heap_create size0))
               < heap_size (snd (allocHeapBlock newSize nativeOk n
                   (heapRun newSize calls (Heap_create size0)))))"
proof -
  let ?h = "heapRun newSize calls (Heap_create size0)"
  have wf: "heapWf ?h"
    using heapWf_create by (rule heapWf_run)
  then have live: "noOverlap (liveBlocks ?h) \<and> liveBytes ?h \<le> heap_size ?h"
    by (rule heapWf_live)
  have served: "n \<le> hb_size u \<and> hb_offset u + hb_size u \<le> heap_size h'
           \<and> list_all (\<lambda>c. \<not> overlap u c) (liveBlocks ?h)
           \<and> u \<in> set (liveBlocks h') \<and> noOverlap (liveBlocks h')
           \<and> liveBytes h' \<le> heap_size h'"
    if a: "allocHeapBlock newSize nativeOk n ?h = (Some u, h')" for nativeOk n u h'
  proof -
    from wf have "heapWf (snd (allocHeapBlock newSize nativeOk n ?h))"
      by (rule allocHeapBlock_wf)
    then have "heapWf h'"
      by (simp add: a)
    then have "noOverlap (liveBlocks h') \<and> liveBytes h' \<le> heap_size h'"
      by (rule heapWf_live)
    with allocHeapBlock_Some [OF wf a] show ?thesis
      by simp
  qed
  have exceeds: "fst (allocHeapBlock newSize nativeOk n ?h) = None
           \<or> heap_size ?h < heap_size (snd (allocHeapBlock newSize nativeOk n ?h))"
    if "freeBytes ?h < n" for nativeOk n
    using that by (rule allocHeapBlock_exceeds)
  from live served exceeds show ?thesis
    by (intro conjI allI impI) blast+
qed


theorem heap_blocks_never_overlap_witness:
  "heapRun growBy heapCalls (Heap_create 100) = heapAfter
   \<and> noOverlap (liveBlocks heapAfter)
   \<and> liveBytes heapAfter \<le> heap_size heapAfter
   \<and> allocHeapBlock growBy True 20 heapAfter
       = (Some \<lparr>hb_offset = 0, hb_size = 20, hb_inUse = True\<rparr>,
          heapAfter\<lparr>heap_blocks :=
            [\<lparr>hb_offset = 0, hb_size = 20, hb_inUse = True\<rparr>,
             \<lparr>hb_offset = 20, hb_size = 20, hb_inUse = False\<rparr>,
             \<lparr>hb_offset = 40, hb_size = 30, hb_inUse = True\<rparr>,
             \<lparr>hb_offset = 70, hb_size = 50, hb_inUse = True\<rparr>,
             \<lparr>hb_offset = 120, hb_size = 30, hb_inUse = False\<rparr>]\<rparr>)
   \<and> list_all (\<lambda>c. \<not> overlap \<lparr>hb_offset = 0, hb_size = 20, hb_inUse = True\<rparr> c)
        (liveBlocks heapAfter)
   \<and> freeBytes heapAfter < 200
   \<and> fst (allocHeapBlock growBy False 200 heapAfter) = None
   \<and> heap_size heapAfter < heap_size (snd (allocHeapBlock growBy True 200 heapAfter))"
proof -
  have run: "heapRun growBy heapCalls (Heap_create 100) = heapAfter"
    by code_simp
  have a20: "allocHeapBlock growBy True 20 heapAfter
       = (Some \<lparr>hb_offset = 0, hb_size = 20, hb_inUse = True\<rparr>,
          heapAfter\<lparr>heap_blocks :=
            [\<lparr>hb_offset = 0, hb_size = 20, hb_inUse = True\<rparr>,
             \<lparr>hb_offset = 20, hb_size = 20, hb_inUse = False\<rparr>,
             \<lparr>hb_offset = 40, hb_size = 30, hb_inUse = True\<rparr>,
             \<lparr>hb_offset = 70, hb_size = 50, hb_inUse = True\<rparr>,
             \<lparr>hb_offset = 120, hb_size = 30, hb_inUse = False\<rparr>]\<rparr>)"
    by code_simp
  have fb: "freeBytes heapAfter < 200"
    by code_simp
  have fail: "fst (allocHeapBlock growBy False 200 heapAfter) = None"
    by code_simp
  have grown: "heap_size heapAfter < heap_size (snd (allocHeapBlock growBy True 200 heapAfter))"
    by code_simp
  note t = heap_blocks_never_overlap [of growBy heapCalls 100, unfolded run]
  from t have live: "noOverlap (liveBlocks heapAfter)"
    and bytes: "liveBytes heapAfter \<le> heap_size heapAfter"
    by blast+
  from t a20 have apart: "list_all (\<lambda>c. \<not> overlap \<lparr>hb_offset = 0, hb_size = 20, hb_inUse = True\<rparr> c)
        (liveBlocks heapAfter)"
    by blast
  from run live bytes a20 apart fb fail grown show ?thesis
    by (intro conjI)
qed

end
